theory Spec2Isabelle
  imports Complex_Main "HOL-Library.Product_Lexorder" "HOL-Library.Multiset"
begin

section \<open>The squashing cell of the local-ancestry notebook\<close>

text \<open>
  The code embedded here is the cell of \<^verbatim>\<open>4-analyses-with-tree-sequences.ipynb\<close> that
  sorts the table \<^verbatim>\<open>local_ancestry\<close> and squashes adjacent rows:
  \<^verbatim>\<open>
  new_sample = []
  new_left = []
  new_right = []
  new_population = []

  local_ancestry.sort_values(
      by=['child','left'], inplace=True, ignore_index=True)

  for ind, row in local_ancestry.iterrows():
      if ind > 0 and row['left']==new_right[-1] and row['population'] == new_population[-1] and row['child'] == new_sample[-1]:
          new_right[-1] = row['right']
      else:
          new_sample.append(row['child'])
          new_left.append(row['left'])
          new_right.append(row['right'])
          new_population.append(row['population'])

  squashed_ancestry_table = pd.DataFrame({
      'child': [int(i) for i in new_sample],
      'left' : new_left,
      'right': new_right,
      'population' : [int(p) for p in new_population]
  })
  \<close>
\<close>

subsection \<open>Data\<close>

text \<open>
  A row of \<^verbatim>\<open>local_ancestry\<close>, with the columns in the order the notebook builds them.
  The positions are float64 values in the source; the cell only compares them (\<^verbatim>\<open>==\<close> in
  the loop, \<open>\<le>\<close> in the sort) and never computes with them, so they are modelled as reals
  (NaN, which a tskit edge table never holds, is left out). The columns \<^verbatim>\<open>child\<close> and
  \<^verbatim>\<open>population\<close> are int32; \<^verbatim>\<open>iterrows\<close> hands them out as floats and the final
  \<^verbatim>\<open>int(...)\<close> turns them back, which is exact on 32-bit integers, so they stay integers here.
\<close>

record row =
  left :: real
  right :: real
  population :: int
  child :: int

text \<open>The four accumulator lists of the cell.\<close>

record lists =
  new_sample :: "int list"
  new_left :: "real list"
  new_right :: "real list"
  new_population :: "int list"

text \<open>
  \<open>InputOrderingError\<close> is the error kind the specification names; no statement of the cell
  raises it. \<open>ValueError\<close> is what the \<^verbatim>\<open>pd.DataFrame\<close> constructor raises when the
  columns it is given differ in length.
\<close>

datatype error = InputOrderingError | ValueError

text \<open>What the cell leaves behind: the table it sorted in place and the table it built.\<close>

record notebook =
  local_ancestry :: "row list"
  squashed_ancestry_table :: "row list"

subsection \<open>The cell\<close>

text \<open>
  \<^verbatim>\<open>sort_values(by=['child','left'])\<close>: with more than one key pandas sorts through its
  lexsort indexer, a stable sort on the lexicographic order of the key columns.
\<close>

definition sort_values :: "row list \<Rightarrow> row list" where
  "sort_values df = sort_key (\<lambda>r. (child r, left r)) df"

text \<open>\<^verbatim>\<open>iterrows()\<close> after \<^verbatim>\<open>ignore_index=True\<close>: the rows with their positions 0, 1, ...\<close>

definition iterrows :: "row list \<Rightarrow> (nat \<times> row) list" where
  "iterrows df = enumerate 0 df"

definition empty_lists :: lists where
  "empty_lists = \<lparr>new_sample = [], new_left = [], new_right = [], new_population = []\<rparr>"

text \<open>
  One turn of the loop. \<^verbatim>\<open>xs[-1]\<close> is \<open>last xs\<close>; Python evaluates it only when
  \<^verbatim>\<open>ind > 0\<close>, and then the lists are not empty.
\<close>

definition loop_body :: "nat \<times> row \<Rightarrow> lists \<Rightarrow> lists" where
  "loop_body = (\<lambda>(ind, r) st.
     if ind > 0 \<and> left r = last (new_right st) \<and> population r = last (new_population st)
        \<and> child r = last (new_sample st)
     then st\<lparr>new_right := (new_right st)[length (new_right st) - 1 := right r]\<rparr>
     else st\<lparr>new_sample := new_sample st @ [child r],
             new_left := new_left st @ [left r],
             new_right := new_right st @ [right r],
             new_population := new_population st @ [population r]\<rparr>)"

text \<open>\<^verbatim>\<open>pd.DataFrame({...})\<close> from four columns: rows by position, or \<open>ValueError\<close>.\<close>

definition data_frame :: "lists \<Rightarrow> error + row list" where
  "data_frame st =
     (if length (new_left st) = length (new_sample st)
         \<and> length (new_right st) = length (new_sample st)
         \<and> length (new_population st) = length (new_sample st)
      then Inr (map (\<lambda>(c, l, r, p). \<lparr>left = l, right = r, population = p, child = c\<rparr>)
                 (zip (new_sample st) (zip (new_left st) (zip (new_right st) (new_population st)))))
      else Inl ValueError)"

definition squash_cell :: "row list \<Rightarrow> error + notebook" where
  "squash_cell df =
     (let sorted_df = sort_values df;
          st = fold loop_body (iterrows sorted_df) empty_lists
      in case data_frame st of
           Inl e \<Rightarrow> Inl e
         | Inr t \<Rightarrow> Inr \<lparr>local_ancestry = sorted_df, squashed_ancestry_table = t\<rparr>)"

text \<open>The merger of the specification: from the input records to the squashed table.\<close>

definition merger :: "row list \<Rightarrow> error + row list" where
  "merger df = (case squash_cell df of Inl e \<Rightarrow> Inl e | Inr nb \<Rightarrow> Inr (squashed_ancestry_table nb))"

subsection \<open>The loop as a function of the rows\<close>

text \<open>
  The last entries of the four lists are the segment being built. \<open>links s r\<close> is the test of
  the loop on that segment and the next row.
\<close>

definition links :: "row \<Rightarrow> row \<Rightarrow> bool" where
  "links s r = (left r = right s \<and> population r = population s \<and> child r = child s)"

fun merge_run :: "row \<Rightarrow> row list \<Rightarrow> row list" where
  "merge_run cur [] = [cur]"
| "merge_run cur (r # rs) =
     (if links cur r then merge_run (cur\<lparr>right := right r\<rparr>) rs else cur # merge_run r rs)"

definition squash_rows :: "row list \<Rightarrow> row list" where
  "squash_rows rs = (case rs of [] \<Rightarrow> [] | r # rs' \<Rightarrow> merge_run r rs')"

definition lists_of :: "row list \<Rightarrow> lists" where
  "lists_of t = \<lparr>new_sample = map child t, new_left = map left t,
                 new_right = map right t, new_population = map population t\<rparr>"

subsection \<open>The vocabulary of the specification\<close>

text \<open>The two sort columns of a row.\<close>

abbreviation sort_columns :: "row \<Rightarrow> int \<times> real" where
  "sort_columns r \<equiv> (child r, left r)"

text \<open>
  Two records overlap when \<open>left\<^sub>j < right\<^sub>i\<close> and \<open>left\<^sub>i < right\<^sub>j\<close>. The input contract:
  every interval has \<open>left < right\<close>, and no two records of one child, at different
  positions of the input, overlap.
\<close>

definition overlap :: "row \<Rightarrow> row \<Rightarrow> bool" where
  "overlap a b = (left b < right a \<and> left a < right b)"

definition input_contract :: "row list \<Rightarrow> bool" where
  "input_contract df =
     ((\<forall>r\<in>set df. left r < right r) \<and>
      (\<forall>i<length df. \<forall>j<length df.
         i \<noteq> j \<and> child (df ! i) = child (df ! j) \<longrightarrow> \<not> overlap (df ! i) (df ! j)))"

text \<open>
  \<open>covers c x r\<close>: the point \<open>x\<close> of child \<open>c\<close> lies in the half-open interval of \<open>r\<close>.
  \<open>apart a b\<close>: if the two rows have the same child, \<open>a\<close> ends no later than \<open>b\<close> begins.
\<close>

definition covers :: "int \<Rightarrow> real \<Rightarrow> row \<Rightarrow> bool" where
  "covers c x r = (child r = c \<and> left r \<le> x \<and> x < right r)"

definition apart :: "row \<Rightarrow> row \<Rightarrow> bool" where
  "apart a b = (child a = child b \<longrightarrow> right a \<le> left b)"

text \<open>
  \<open>kept_adjacent a b out\<close>: two consecutive segments of \<open>out\<close>, the first with the child and
  population of \<open>a\<close>, containing \<open>a\<close> and ending where \<open>a\<close> ends, the second with the child and
  population of \<open>b\<close>, beginning where \<open>b\<close> begins and containing \<open>b\<close>.
\<close>

definition kept_adjacent :: "row \<Rightarrow> row \<Rightarrow> row list \<Rightarrow> bool" where
  "kept_adjacent a b out =
     (\<exists>(s, t)\<in>set (zip out (tl out)).
        child s = child a \<and> population s = population a \<and> left s \<le> left a \<and> right s = right a \<and>
        child t = child b \<and> population t = population b \<and> left t = left b \<and> right b \<le> right t)"

section \<open>The cell computes the run merge of the sorted rows\<close>

lemma data_frame_lists_of: "data_frame (lists_of t) = Inr t"
proof -
  have "map (\<lambda>(c, l, r, p). \<lparr>left = l, right = r, population = p, child = c\<rparr>)
          (zip (map child t) (zip (map left t) (zip (map right t) (map population t)))) = t"
    by (induction t) simp_all
  then show ?thesis by (simp add: data_frame_def lists_of_def)
qed

lemma loop_body_first: "loop_body (0, r) (lists_of []) = lists_of [r]"
  by (simp add: loop_body_def lists_of_def)

lemma update_last_map: "(map f t @ [a])[length t := b] = map f t @ [b]"
  using list_update_length [of "map f t" a "[]" b] by simp

lemma loop_body_snoc:
  assumes "0 < k"
  shows "loop_body (k, r) (lists_of (t @ [s])) =
           lists_of (if links s r then t @ [s\<lparr>right := right r\<rparr>] else t @ [s, r])"
  using assms by (simp add: loop_body_def lists_of_def links_def update_last_map)

lemma fold_loop_body:
  assumes "0 < k"
  shows "fold loop_body (enumerate k rs) (lists_of (t @ [s])) = lists_of (t @ merge_run s rs)"
  using assms
proof (induction rs arbitrary: k t s)
  case Nil
  then show ?case by simp
next
  case (Cons r rs)
  show ?case
  proof (cases "links s r")
    case True
    with Cons.prems Cons.IH [of "Suc k" t "s\<lparr>right := right r\<rparr>"] show ?thesis
      by (simp add: loop_body_snoc)
  next
    case False
    with Cons.prems Cons.IH [of "Suc k" "t @ [s]" r] show ?thesis
      by (simp add: loop_body_snoc)
  qed
qed

lemma fold_loop_body_all:
  "fold loop_body (iterrows rs) empty_lists = lists_of (squash_rows rs)"
proof (cases rs)
  case Nil
  then show ?thesis by (simp add: iterrows_def empty_lists_def lists_of_def squash_rows_def)
next
  case (Cons r rs')
  have e: "empty_lists = lists_of []" by (simp add: empty_lists_def lists_of_def)
  have "fold loop_body (enumerate (Suc 0) rs') (lists_of ([] @ [r])) = lists_of ([] @ merge_run r rs')"
    by (rule fold_loop_body) simp
  with Cons show ?thesis
    by (simp add: iterrows_def e loop_body_first squash_rows_def)
qed

lemma squash_cell_eq:
  "squash_cell df = Inr \<lparr>local_ancestry = sort_values df,
                         squashed_ancestry_table = squash_rows (sort_values df)\<rparr>"
  by (simp add: squash_cell_def Let_def fold_loop_body_all data_frame_lists_of)

lemma merger_eq: "merger df = Inr (squash_rows (sort_values df))"
  by (simp add: merger_def squash_cell_eq)

section \<open>Properties of the run merge\<close>

lemma merge_run_head: "\<exists>v ys. merge_run cur rs = cur\<lparr>right := v\<rparr> # ys"
proof (induction rs arbitrary: cur)
  case Nil
  have "merge_run cur [] = cur\<lparr>right := right cur\<rparr> # []" by simp
  then show ?case by blast
next
  case (Cons r rs)
  show ?case
  proof (cases "links cur r")
    case True
    from Cons.IH [of "cur\<lparr>right := right r\<rparr>"] True show ?thesis by auto
  next
    case False
    have "merge_run cur (r # rs) = cur\<lparr>right := right cur\<rparr> # merge_run r rs"
      using False by simp
    then show ?thesis by blast
  qed
qed

lemma links_right_update: "links s (r\<lparr>right := v\<rparr>) = links s r"
  by (simp add: links_def)

lemma merge_run_unlinked: "successively (\<lambda>s t. \<not> links s t) (merge_run cur rs)"
proof (induction rs arbitrary: cur)
  case Nil
  show ?case by simp
next
  case (Cons r rs)
  show ?case
  proof (cases "links cur r")
    case True
    then show ?thesis using Cons.IH by simp
  next
    case False
    obtain v ys where h: "merge_run r rs = r\<lparr>right := v\<rparr> # ys"
      using merge_run_head by blast
    have "successively (\<lambda>s t. \<not> links s t) (r\<lparr>right := v\<rparr> # ys)"
      using Cons.IH [of r] h by simp
    with False h show ?thesis by (simp add: links_right_update)
  qed
qed

lemma merge_run_origin:
  "s \<in> set (merge_run cur rs) \<Longrightarrow>
     \<exists>r\<in>set (cur # rs). child s = child r \<and> left s = left r \<and> population s = population r"
proof (induction rs arbitrary: cur)
  case Nil
  then show ?case by simp
next
  case (Cons r rs)
  show ?case
  proof (cases "links cur r")
    case True
    with Cons.prems have "s \<in> set (merge_run (cur\<lparr>right := right r\<rparr>) rs)" by simp
    from Cons.IH [OF this] show ?thesis by auto
  next
    case False
    with Cons.prems have "s = cur \<or> s \<in> set (merge_run r rs)" by simp
    then show ?thesis
    proof
      assume "s = cur" then show ?thesis by simp
    next
      assume "s \<in> set (merge_run r rs)"
      from Cons.IH [OF this] show ?thesis by auto
    qed
  qed
qed

lemma merge_run_sorted:
  "sorted (map sort_columns (cur # rs)) \<Longrightarrow> sorted (map sort_columns (merge_run cur rs))"
proof (induction rs arbitrary: cur)
  case Nil
  show ?case by simp
next
  case (Cons r rs)
  show ?case
  proof (cases "links cur r")
    case True
    have "sorted (map sort_columns (cur\<lparr>right := right r\<rparr> # rs))"
      using Cons.prems by auto
    from Cons.IH [OF this] True show ?thesis by simp
  next
    case False
    have t: "sorted (map sort_columns (r # rs))" using Cons.prems by simp
    have "sort_columns cur \<le> sort_columns s" if "s \<in> set (merge_run r rs)" for s
    proof -
      from merge_run_origin [OF that] obtain q where
        q: "q \<in> set (r # rs)" "sort_columns s = sort_columns q" by auto
      from Cons.prems q(1) have "sort_columns cur \<le> sort_columns q" by auto
      with q(2) show ?thesis by simp
    qed
    with Cons.IH [OF t] False show ?thesis by auto
  qed
qed

lemma squash_rows_sorted:
  "sorted (map sort_columns rs) \<Longrightarrow> sorted (map sort_columns (squash_rows rs))"
  by (cases rs) (simp_all add: squash_rows_def merge_run_sorted del: sorted_wrt.simps)

lemma squash_rows_unlinked: "successively (\<lambda>s t. \<not> links s t) (squash_rows rs)"
  by (cases rs) (simp_all add: squash_rows_def merge_run_unlinked)

lemma sort_values_sorted: "sorted (map sort_columns (sort_values df))"
  by (simp add: sort_values_def)

lemma merge_run_fixed: "successively (\<lambda>s t. \<not> links s t) (cur # rs) \<Longrightarrow> merge_run cur rs = cur # rs"
  by (induction rs arbitrary: cur) simp_all

lemma squash_rows_fixed: "successively (\<lambda>s t. \<not> links s t) rs \<Longrightarrow> squash_rows rs = rs"
  by (cases rs) (simp_all add: squash_rows_def merge_run_fixed)

lemma sorted_child: "sorted (map sort_columns rs) \<Longrightarrow> sorted (map child rs)"
proof -
  assume "sorted (map sort_columns rs)"
  then have "sorted_wrt (\<lambda>a b. sort_columns a \<le> sort_columns b) rs" by (simp add: sorted_map)
  then have "sorted_wrt (\<lambda>a b. child a \<le> child b) rs"
    by (rule sorted_wrt_mono_rel [rotated]) auto
  then show ?thesis by (simp add: sorted_map)
qed

lemma filter_child_unlinked:
  "sorted (map child out) \<Longrightarrow> successively (\<lambda>s t. \<not> links s t) out \<Longrightarrow>
   successively (\<lambda>s t. \<not> links s t) (filter (\<lambda>s. child s = c) out)"
proof (induction out rule: induct_list012)
  case 1
  show ?case by simp
next
  case (2 x)
  show ?case by simp
next
  case (3 x y zs)
  have tl: "successively (\<lambda>s t. \<not> links s t) (filter (\<lambda>s. child s = c) (y # zs))"
    using 3 by simp
  show ?case
  proof (cases "child x = c")
    case False
    with tl show ?thesis by simp
  next
    case True
    show ?thesis
    proof (cases "child y = c")
      case True
      with \<open>child x = c\<close> tl "3.prems"(2) show ?thesis by simp
    next
      case False
      have "\<forall>z\<in>set (y # zs). child y \<le> child z" using "3.prems"(1) by auto
      moreover have "c < child y" using "3.prems"(1) \<open>child x = c\<close> False by auto
      ultimately have "filter (\<lambda>s. child s = c) (y # zs) = []"
        by (auto simp: filter_empty_conv)
      then show ?thesis using True by simp
    qed
  qed
qed

lemma sorted_wrt_insort_key:
  assumes "\<And>a b. P a b \<Longrightarrow> P b a"
  shows "sorted_wrt P (insort_key f x xs) = ((\<forall>y\<in>set xs. P x y) \<and> sorted_wrt P xs)"
  using assms by (induction xs) (auto simp: set_insort_key)

lemma sorted_wrt_sort_key:
  assumes "\<And>a b. P a b \<Longrightarrow> P b a"
  shows "sorted_wrt P (sort_key f xs) = sorted_wrt P xs"
  by (induction xs) (simp_all add: sorted_wrt_insort_key [of P, OF assms])

lemma sorted_wrt_both:
  "sorted_wrt P xs \<Longrightarrow> sorted_wrt Q xs \<Longrightarrow> sorted_wrt (\<lambda>a b. P a b \<and> Q a b) xs"
  by (induction xs) auto

lemma contract_pairs:
  "input_contract df \<Longrightarrow> sorted_wrt (\<lambda>a b. child a = child b \<longrightarrow> \<not> overlap a b) df"
  by (simp add: input_contract_def sorted_wrt_iff_nth_less)

lemma sort_values_apart:
  assumes "input_contract df"
  shows "sorted_wrt apart (sort_values df)"
proof -
  let ?L = "sort_values df"
  have v: "\<forall>r\<in>set ?L. left r < right r"
    using assms by (simp add: input_contract_def sort_values_def)
  let ?P = "\<lambda>a b. child a = child b \<longrightarrow> \<not> overlap a b"
  have sym: "?P b a" if "?P a b" for a b
    using that by (auto simp: overlap_def)
  have "sorted_wrt ?P (sort_key sort_columns df) = sorted_wrt ?P df"
    by (rule sorted_wrt_sort_key) (rule sym)
  then have "sorted_wrt ?P ?L"
    using contract_pairs [OF assms] by (simp add: sort_values_def)
  moreover have "sorted_wrt (\<lambda>a b. sort_columns a \<le> sort_columns b) ?L"
    using sort_values_sorted [of df] by (simp add: sorted_map)
  ultimately have "sorted_wrt (\<lambda>a b. sort_columns a \<le> sort_columns b
                      \<and> (child a = child b \<longrightarrow> \<not> overlap a b)) ?L"
    by (rule sorted_wrt_both [rotated])
  then show ?thesis
  proof (rule sorted_wrt_mono_rel [rotated])
    fix a b
    assume "a \<in> set ?L" "b \<in> set ?L"
      and "sort_columns a \<le> sort_columns b \<and> (child a = child b \<longrightarrow> \<not> overlap a b)"
    with v show "apart a b" by (fastforce simp: apart_def overlap_def)
  qed
qed

lemma merge_run_apart:
  assumes "sorted_wrt apart (cur # rs)" and "\<forall>r\<in>set (cur # rs). left r < right r"
  shows "sorted_wrt apart (merge_run cur rs) \<and> (\<forall>s\<in>set (merge_run cur rs). left s < right s)"
  using assms
proof (induction rs arbitrary: cur)
  case Nil
  then show ?case by simp
next
  case (Cons r rs)
  show ?case
  proof (cases "links cur r")
    case True
    have "sorted_wrt apart rs" using Cons.prems(1) by simp
    moreover have "\<forall>y\<in>set rs. apart (cur\<lparr>right := right r\<rparr>) y"
      using Cons.prems(1) True by (auto simp: apart_def links_def)
    ultimately have "sorted_wrt apart (cur\<lparr>right := right r\<rparr> # rs)" by simp
    moreover have "\<forall>q\<in>set (cur\<lparr>right := right r\<rparr> # rs). left q < right q"
      using Cons.prems(2) True by (auto simp: links_def)
    ultimately show ?thesis using Cons.IH [of "cur\<lparr>right := right r\<rparr>"] True by simp
  next
    case False
    have ih: "sorted_wrt apart (merge_run r rs) \<and> (\<forall>s\<in>set (merge_run r rs). left s < right s)"
      using Cons.IH [of r] Cons.prems by simp
    have "apart cur s" if "s \<in> set (merge_run r rs)" for s
    proof -
      from merge_run_origin [OF that] obtain q where
        q: "q \<in> set (r # rs)" "child s = child q" "left s = left q" by auto
      from Cons.prems(1) q(1) have "apart cur q" by auto
      with q show ?thesis by (simp add: apart_def)
    qed
    with ih Cons.prems(2) False show ?thesis by simp
  qed
qed

lemma squash_rows_apart:
  assumes "sorted_wrt apart rs" and "\<forall>r\<in>set rs. left r < right r"
  shows "sorted_wrt apart (squash_rows rs) \<and> (\<forall>s\<in>set (squash_rows rs). left s < right s)"
proof (cases rs)
  case Nil
  then show ?thesis by (simp add: squash_rows_def)
next
  case (Cons r rs')
  with merge_run_apart [of r rs'] assms show ?thesis by (simp add: squash_rows_def)
qed

lemma merge_run_cover:
  assumes "\<forall>r\<in>set (cur # rs). left r \<le> right r"
  shows "length (filter (\<lambda>r. covers c x r \<and> Q (population r)) (merge_run cur rs))
           = length (filter (\<lambda>r. covers c x r \<and> Q (population r)) (cur # rs))"
  using assms
proof (induction rs arbitrary: cur)
  case Nil
  show ?case by simp
next
  case (Cons r rs)
  show ?case
  proof (cases "links cur r")
    case True
    let ?m = "cur\<lparr>right := right r\<rparr>"
    let ?n = "\<lambda>ys. length (filter (\<lambda>r. covers c x r \<and> Q (population r)) ys)"
    have "\<forall>q\<in>set (?m # rs). left q \<le> right q"
      using Cons.prems True by (auto simp: links_def)
    from Cons.IH [OF this]
    have "?n (merge_run ?m rs) = ?n (?m # rs)" .
    also have "\<dots> = ?n [?m] + ?n rs" by simp
    also have "?n [?m] = ?n [cur, r]"
      using Cons.prems True by (auto simp: links_def covers_def)
    also have "?n [cur, r] + ?n rs = ?n (cur # r # rs)" by simp
    finally show ?thesis using True by simp
  next
    case False
    with Cons.IH [of r] Cons.prems show ?thesis by simp
  qed
qed

lemma squash_rows_cover:
  assumes "\<forall>r\<in>set rs. left r \<le> right r"
  shows "length (filter (\<lambda>r. covers c x r \<and> Q (population r)) (squash_rows rs))
           = length (filter (\<lambda>r. covers c x r \<and> Q (population r)) rs)"
proof (cases rs)
  case Nil
  then show ?thesis by (simp add: squash_rows_def)
next
  case (Cons r rs')
  with merge_run_cover [of r rs' c x Q] assms show ?thesis by (simp add: squash_rows_def)
qed

lemma sort_values_filter: "length (filter P (sort_values df)) = length (filter P df)"
proof -
  have "mset (filter P (sort_values df)) = mset (filter P df)"
    by (simp add: sort_values_def)
  then show ?thesis by (rule mset_eq_length)
qed

lemma cover_count:
  assumes "\<forall>r\<in>set df. left r \<le> right r"
  shows "length (filter (\<lambda>r. covers c x r \<and> Q (population r)) (squash_rows (sort_values df)))
           = length (filter (\<lambda>r. covers c x r \<and> Q (population r)) df)"
proof -
  have "\<forall>r\<in>set (sort_values df). left r \<le> right r"
    using assms by (simp add: sort_values_def)
  from squash_rows_cover [OF this] show ?thesis by (simp add: sort_values_filter)
qed

lemma filter_nonempty: "(\<exists>r\<in>set rs. P r) = (0 < length (filter P rs))"
  by (simp add: filter_empty_conv)

lemma input_contract_pairs:
  "input_contract df =
     ((\<forall>r\<in>set df. left r < right r) \<and>
      sorted_wrt (\<lambda>a b. child a = child b \<longrightarrow> \<not> overlap a b) df)"
proof -
  have "(\<forall>i<length df. \<forall>j<length df.
           i \<noteq> j \<and> child (df ! i) = child (df ! j) \<longrightarrow> \<not> overlap (df ! i) (df ! j))
        = (\<forall>i j. i < j \<longrightarrow> j < length df \<longrightarrow>
             (child (df ! i) = child (df ! j) \<longrightarrow> \<not> overlap (df ! i) (df ! j)))"
    (is "?A = ?B")
  proof
    assume a: ?A
    show ?B
    proof (intro allI impI)
      fix i j assume "i < j" "j < length df" "child (df ! i) = child (df ! j)"
      with a [rule_format, of i j] show "\<not> overlap (df ! i) (df ! j)" by simp
    qed
  next
    assume b: ?B
    show ?A
    proof (intro allI impI)
      fix i j assume h: "i < length df" "j < length df"
        "i \<noteq> j \<and> child (df ! i) = child (df ! j)"
      show "\<not> overlap (df ! i) (df ! j)"
      proof (cases "i < j")
        case True
        with b h show ?thesis by simp
      next
        case False
        with h have "j < i" by simp
        with b [rule_format, of j i] h show ?thesis by (auto simp: overlap_def)
      qed
    qed
  qed
  then show ?thesis by (simp add: input_contract_def sorted_wrt_iff_nth_less)
qed

lemma contract_columns_distinct:
  assumes "input_contract df"
  shows "distinct (map sort_columns df)"
proof -
  have "map sort_columns df ! i \<noteq> map sort_columns df ! j"
    if h: "i < length df" "j < length df" "i \<noteq> j" for i j
  proof
    assume "map sort_columns df ! i = map sort_columns df ! j"
    with h have e: "child (df ! i) = child (df ! j)" "left (df ! i) = left (df ! j)" by simp_all
    from assms h have "left (df ! i) < right (df ! i)" "left (df ! j) < right (df ! j)"
      by (simp_all add: input_contract_def)
    with e have "overlap (df ! i) (df ! j)" by (simp add: overlap_def)
    moreover from assms h e(1) have "\<not> overlap (df ! i) (df ! j)"
      by (simp add: input_contract_def)
    ultimately show False by simp
  qed
  then show ?thesis by (simp add: distinct_conv_nth)
qed

lemma sort_values_permuted:
  assumes "distinct (map sort_columns df)" and "mset df' = mset df"
  shows "sort_values df' = sort_values df"
proof -
  let ?A = "sort_values df'" and ?B = "sort_values df"
  have ms: "mset ?A = mset ?B" using assms(2) by (simp add: sort_values_def)
  then have mk: "mset (map sort_columns ?A) = mset (map sort_columns ?B)" by simp
  have "mset (map sort_columns ?B) = mset (map sort_columns df)" by (simp add: sort_values_def)
  then have dB: "distinct (map sort_columns ?B)"
    using assms(1) mset_eq_imp_distinct_iff by blast
  with mk have dA: "distinct (map sort_columns ?A)"
    using mset_eq_imp_distinct_iff by blast
  have "set (map sort_columns ?A) = set (map sort_columns ?B)"
    using mk by (rule mset_eq_setD)
  with dA dB have k: "map sort_columns ?A = map sort_columns ?B"
    using sort_values_sorted sorted_distinct_set_unique by blast
  have "set ?A = set ?B" using ms by (rule mset_eq_setD)
  moreover have "inj_on sort_columns (set ?B)" using dB by (simp add: distinct_map)
  ultimately have "inj_on sort_columns (set ?A \<union> set ?B)" by simp
  from inj_on_map_eq_map [OF this] k show ?thesis by simp
qed

lemma filter_at_most_one:
  "(length (filter P xs) \<le> 1) = sorted_wrt (\<lambda>s t. \<not> (P s \<and> P t)) xs"
proof (induction xs)
  case Nil
  show ?case by simp
next
  case (Cons x xs)
  show ?case
  proof (cases "P x")
    case True
    have "(length (filter P (x # xs)) \<le> 1) = (\<forall>y\<in>set xs. \<not> P y)"
      using True by (simp add: filter_empty_conv)
    moreover have "sorted_wrt (\<lambda>s t. \<not> (P s \<and> P t)) xs" if "\<forall>y\<in>set xs. \<not> P y"
    proof -
      from that have "filter P xs = []" by (simp add: filter_empty_conv)
      with Cons.IH show ?thesis by simp
    qed
    ultimately show ?thesis using True by auto
  next
    case False
    with Cons.IH show ?thesis by simp
  qed
qed

lemma overlap_kept:
  assumes "\<forall>r\<in>set df. left r < right r"
    and "i < length df" "j < length df" "i \<noteq> j"
    and "child (df ! i) = child (df ! j)" "overlap (df ! i) (df ! j)"
  shows "\<exists>i' j'. i' < j' \<and> j' < length (squash_rows (sort_values df))
           \<and> child (squash_rows (sort_values df) ! i') = child (squash_rows (sort_values df) ! j')
           \<and> overlap (squash_rows (sort_values df) ! i') (squash_rows (sort_values df) ! j')"
proof -
  let ?out = "squash_rows (sort_values df)"
  let ?c = "child (df ! i)"
  let ?x = "max (left (df ! i)) (left (df ! j))"
  let ?P = "\<lambda>r. covers ?c ?x r \<and> True"
  have v: "left (df ! i) < right (df ! i)" "left (df ! j) < right (df ! j)"
    using assms(1-3) by simp_all
  have ci: "?P (df ! i)" and cj: "?P (df ! j)"
    using v assms(5,6) by (auto simp: covers_def overlap_def)
  have "\<not> sorted_wrt (\<lambda>s t. \<not> (?P s \<and> ?P t)) df"
  proof
    assume s: "sorted_wrt (\<lambda>s t. \<not> (?P s \<and> ?P t)) df"
    show False
    proof (cases "i < j")
      case True
      from sorted_wrt_nth_less [OF s True assms(3)] ci cj show False by simp
    next
      case False
      with assms(4) have "j < i" by simp
      from sorted_wrt_nth_less [OF s this assms(2)] ci cj show False by simp
    qed
  qed
  then have "\<not> length (filter ?P df) \<le> 1" using filter_at_most_one [of ?P df] by blast
  moreover have "\<forall>r\<in>set df. left r \<le> right r" using assms(1) by auto
  from cover_count [OF this, of ?c ?x "\<lambda>_. True"]
  have "length (filter ?P ?out) = length (filter ?P df)" .
  ultimately have "\<not> length (filter ?P ?out) \<le> 1" by simp
  then have "\<not> sorted_wrt (\<lambda>s t. \<not> (?P s \<and> ?P t)) ?out"
    using filter_at_most_one [of ?P ?out] by blast
  then obtain i' j' where h: "i' < j'" "j' < length ?out" "?P (?out ! i')" "?P (?out ! j')"
    by (auto simp: sorted_wrt_iff_nth_less)
  then have "child (?out ! i') = child (?out ! j')" "overlap (?out ! i') (?out ! j')"
    by (auto simp: covers_def overlap_def)
  with h(1,2) show ?thesis by blast
qed

lemma merge_run_nonempty: "merge_run cur rs \<noteq> []"
  using merge_run_head [of cur rs] by auto

lemma merge_run_append:
  "merge_run cur (xs @ ys) = butlast (merge_run cur xs) @ merge_run (last (merge_run cur xs)) ys"
proof (induction xs arbitrary: cur)
  case Nil
  show ?case by simp
next
  case (Cons r xs)
  show ?case
  proof (cases "links cur r")
    case True
    with Cons.IH [of "cur\<lparr>right := right r\<rparr>"] show ?thesis by simp
  next
    case False
    with Cons.IH [of r] show ?thesis by (simp add: merge_run_nonempty)
  qed
qed

lemma merge_run_last:
  "child (last (merge_run cur rs)) = child (last (cur # rs)) \<and>
   population (last (merge_run cur rs)) = population (last (cur # rs)) \<and>
   right (last (merge_run cur rs)) = right (last (cur # rs))"
proof (induction rs arbitrary: cur)
  case Nil
  show ?case by simp
next
  case (Cons r rs)
  show ?case
  proof (cases "links cur r")
    case True
    with Cons.IH [of "cur\<lparr>right := right r\<rparr>"] show ?thesis by (simp add: links_def)
  next
    case False
    with Cons.IH [of r] show ?thesis by (simp add: merge_run_nonempty)
  qed
qed

lemma merge_run_head_le:
  assumes "\<forall>r\<in>set (cur # rs). left r \<le> right r"
  shows "\<exists>v ys. merge_run cur rs = cur\<lparr>right := v\<rparr> # ys \<and> right cur \<le> v"
  using assms
proof (induction rs arbitrary: cur)
  case Nil
  have "merge_run cur [] = cur\<lparr>right := right cur\<rparr> # []" by simp
  then show ?case by blast
next
  case (Cons r rs)
  show ?case
  proof (cases "links cur r")
    case True
    have "\<forall>q\<in>set (cur\<lparr>right := right r\<rparr> # rs). left q \<le> right q"
      using Cons.prems True by (auto simp: links_def)
    from Cons.IH [OF this] obtain v ys where
      "merge_run (cur\<lparr>right := right r\<rparr>) rs = cur\<lparr>right := v\<rparr> # ys" "right r \<le> v" by auto
    moreover have "right cur \<le> right r" using Cons.prems True by (simp add: links_def)
    ultimately show ?thesis using True by auto
  next
    case False
    have "merge_run cur (r # rs) = cur\<lparr>right := right cur\<rparr> # merge_run r rs"
      using False by simp
    then show ?thesis by blast
  qed
qed

lemma kept_adjacentI:
  assumes "out = us @ s # t # ys"
    and "child s = child a" "population s = population a" "left s \<le> left a" "right s = right a"
    and "child t = child b" "population t = population b" "left t = left b" "right b \<le> right t"
  shows "kept_adjacent a b out"
proof -
  have "(s, t) \<in> set (zip out (tl out))"
    unfolding in_set_zip
  proof (intro exI conjI)
    show "out ! length us = fst (s, t)" using assms(1) by simp
    show "tl out ! length us = snd (s, t)" using assms(1) by (simp add: nth_tl nth_append)
    show "length us < length out" using assms(1) by simp
    show "length us < length (tl out)" using assms(1) by simp
  qed
  with assms(2-) show ?thesis unfolding kept_adjacent_def by blast
qed

lemma squash_rows_boundary:
  assumes L: "L = pre @ a # b # post"
    and s: "sorted (map sort_columns L)"
    and v: "\<forall>r\<in>set L. left r \<le> right r"
    and p: "population a \<noteq> population b"
  shows "kept_adjacent a b (squash_rows L)"
proof -
  obtain c0 xs where c: "pre @ [a] = c0 # xs" by (cases pre) auto
  let ?M = "merge_run c0 xs"
  let ?s = "last ?M"
  have la: "last (c0 # xs) = a" using c [symmetric] by simp
  from merge_run_last [of c0 xs] la
  have sa: "child ?s = child a" "population ?s = population a" "right ?s = right a" by simp_all
  have "?s \<in> set ?M" using merge_run_nonempty by simp
  from merge_run_origin [OF this] obtain q where
    q: "q \<in> set (c0 # xs)" "child ?s = child q" "left ?s = left q" by auto
  from q(1) c have "q \<in> set (pre @ [a])" by simp
  moreover have "sorted (map sort_columns (pre @ [a]))"
    using s L by (simp add: sorted_append)
  ultimately have "sort_columns q \<le> sort_columns a" by (auto simp: sorted_append)
  with q(2,3) sa(1) have sl: "left ?s \<le> left a" by simp
  have "\<forall>r\<in>set (b # post). left r \<le> right r" using v L by simp
  from merge_run_head_le [OF this] obtain w ys where
    t: "merge_run b post = b\<lparr>right := w\<rparr> # ys" "right b \<le> w" by blast
  have nl: "\<not> links ?s b" using p sa(2) by (simp add: links_def)
  have "L = c0 # (xs @ b # post)" using L c by (metis append_Cons append_assoc append_Nil)
  then have "squash_rows L = merge_run c0 (xs @ b # post)" by (simp add: squash_rows_def)
  also have "\<dots> = butlast ?M @ merge_run ?s (b # post)" by (rule merge_run_append)
  also have "\<dots> = butlast ?M @ ?s # b\<lparr>right := w\<rparr> # ys" using nl t(1) by simp
  finally have "squash_rows L = butlast ?M @ ?s # b\<lparr>right := w\<rparr> # ys" .
  then show ?thesis
    by (rule kept_adjacentI) (use sa sl t(2) in simp_all)
qed

lemma touching_rows_consecutive:
  assumes a: "sorted_wrt apart L" and s: "sorted (map child L)"
    and v: "\<forall>r\<in>set L. left r < right r"
    and m: "a \<in> set L" "b \<in> set L"
    and t: "child a = child b" "right a = left b"
  shows "\<exists>pre post. L = pre @ a # b # post"
proof -
  from m obtain i j where i: "i < length L" "L ! i = a" and j: "j < length L" "L ! j = b"
    by (auto simp: in_set_conv_nth)
  from v m have va: "left a < right a" and vb: "left b < right b" by simp_all
  have "\<not> j < i"
  proof
    assume "j < i"
    from sorted_wrt_nth_less [OF a this i(1)] i j t va vb show False by (simp add: apart_def)
  qed
  moreover have "i \<noteq> j" using i j t va by auto
  ultimately have ij: "i < j" by simp
  have "j = Suc i"
  proof (rule ccontr)
    assume "j \<noteq> Suc i"
    with ij have k: "i < Suc i" "Suc i < j" by simp_all
    let ?k = "L ! Suc i"
    from k j(1) have kl: "Suc i < length L" by simp
    have "child a \<le> child ?k" "child ?k \<le> child b"
      using sorted_nth_mono [OF s, of i "Suc i"] sorted_nth_mono [OF s, of "Suc i" j] k kl i j
      by simp_all
    with t(1) have ck: "child ?k = child a" by simp
    from sorted_wrt_nth_less [OF a k(1) kl] i ck have "right a \<le> left ?k" by (simp add: apart_def)
    moreover from sorted_wrt_nth_less [OF a k(2) j(1)] j ck t(1) have "right ?k \<le> left b"
      by (simp add: apart_def)
    moreover from v kl have "left ?k < right ?k" by simp
    ultimately show False using t(2) by simp
  qed
  with i j have "L = take i L @ a # b # drop (Suc (Suc i)) L"
    by (metis Cons_nth_drop_Suc id_take_nth_drop)
  then show ?thesis by blast
qed

lemma merge_run_head_span:
  "\<exists>v ys. merge_run cur rs = cur\<lparr>right := v\<rparr> # ys \<and>
     ((\<forall>r\<in>set (cur # rs). left r \<le> right r) \<longrightarrow> right cur \<le> v)"
proof (cases "\<forall>r\<in>set (cur # rs). left r \<le> right r")
  case True
  from merge_run_head_le [OF True] show ?thesis by blast
next
  case False
  with merge_run_head [of cur rs] show ?thesis by blast
qed

lemma merge_run_contains:
  assumes "sorted (map sort_columns (cur # rs))" and "z \<in> set (cur # rs)"
  shows "\<exists>s\<in>set (merge_run cur rs).
           child s = child z \<and> population s = population z \<and> left s \<le> left z \<and>
           ((\<forall>r\<in>set (cur # rs). left r \<le> right r) \<longrightarrow> right z \<le> right s)"
  using assms
proof (induction rs arbitrary: cur)
  case Nil
  then show ?case by simp
next
  case (Cons r rs)
  show ?case
  proof (cases "z = cur")
    case True
    from merge_run_head_span [of cur "r # rs"] obtain v ys where
      "merge_run cur (r # rs) = cur\<lparr>right := v\<rparr> # ys"
      "(\<forall>q\<in>set (cur # r # rs). left q \<le> right q) \<longrightarrow> right cur \<le> v" by blast
    with True show ?thesis by simp
  next
    case False
    with Cons.prems(2) have zr: "z \<in> set (r # rs)" by simp
    show ?thesis
    proof (cases "links cur r")
      case True
      let ?m = "cur\<lparr>right := right r\<rparr>"
      have sm: "sorted (map sort_columns (?m # rs))" using Cons.prems(1) by auto
      have vm: "\<forall>q\<in>set (?m # rs). left q \<le> right q"
        if "\<forall>q\<in>set (cur # r # rs). left q \<le> right q"
        using that True by (auto simp: links_def)
      show ?thesis
      proof (cases "z = r")
        case True
        from merge_run_head_span [of ?m rs] obtain v ys where
          h: "merge_run ?m rs = ?m\<lparr>right := v\<rparr> # ys"
             "(\<forall>q\<in>set (?m # rs). left q \<le> right q) \<longrightarrow> right ?m \<le> v" by blast
        have "sort_columns cur \<le> sort_columns r" using Cons.prems(1) by simp
        with \<open>links cur r\<close> have "left cur \<le> left r" by (simp add: links_def)
        moreover have "right r \<le> v" if "\<forall>q\<in>set (cur # r # rs). left q \<le> right q"
          using h(2) vm [OF that] by simp
        ultimately show ?thesis using \<open>links cur r\<close> True h(1) by (simp add: links_def)
      next
        case False
        with zr have "z \<in> set (?m # rs)" by simp
        from Cons.IH [OF sm this] obtain s where
          s: "s \<in> set (merge_run ?m rs)" "child s = child z" "population s = population z"
             "left s \<le> left z"
             "(\<forall>q\<in>set (?m # rs). left q \<le> right q) \<longrightarrow> right z \<le> right s" by blast
        have "right z \<le> right s" if "\<forall>q\<in>set (cur # r # rs). left q \<le> right q"
          using s(5) vm [OF that] by simp
        with s(1-4) True show ?thesis by auto
      qed
    next
      case False
      have "sorted (map sort_columns (r # rs))" using Cons.prems(1) by simp
      from Cons.IH [OF this zr] obtain s where
        s: "s \<in> set (merge_run r rs)" "child s = child z" "population s = population z"
           "left s \<le> left z"
           "(\<forall>q\<in>set (r # rs). left q \<le> right q) \<longrightarrow> right z \<le> right s" by blast
      have "right z \<le> right s" if "\<forall>q\<in>set (cur # r # rs). left q \<le> right q"
        using s(5) that by simp
      with s(1-4) False show ?thesis by auto
    qed
  qed
qed

lemma merge_run_self:
  assumes "\<forall>r\<in>set post. \<not> links z r"
  shows "z \<in> set (merge_run z post)"
  using assms by (cases post) simp_all

lemma merge_run_keeps:
  assumes "\<not> links cur z" and "\<forall>r\<in>set (pre @ post). \<not> links r z \<and> \<not> links z r"
  shows "z \<in> set (merge_run cur (pre @ z # post))"
  using assms
proof (induction pre arbitrary: cur)
  case Nil
  then have "z \<in> set (merge_run z post)" by (intro merge_run_self) simp
  with Nil.prems(1) show ?case by simp
next
  case (Cons r pre)
  have rest: "\<forall>q\<in>set (pre @ post). \<not> links q z \<and> \<not> links z q" using Cons.prems(2) by simp
  have nr: "\<not> links r z" using Cons.prems(2) by simp
  show ?case
  proof (cases "links cur r")
    case True
    with nr have "\<not> links (cur\<lparr>right := right r\<rparr>) z" by (simp add: links_def)
    from Cons.IH [OF this rest] True show ?thesis by simp
  next
    case False
    from Cons.IH [OF nr rest] False show ?thesis by simp
  qed
qed

lemma squash_rows_keeps:
  assumes "\<forall>r\<in>set (pre @ post). \<not> links r z \<and> \<not> links z r"
  shows "z \<in> set (squash_rows (pre @ z # post))"
proof (cases pre)
  case Nil
  have "z \<in> set (merge_run z post)" using assms by (intro merge_run_self) simp
  with Nil show ?thesis by (simp add: squash_rows_def)
next
  case (Cons c pre')
  have "\<not> links c z" using assms Cons by simp
  moreover have "\<forall>r\<in>set (pre' @ post). \<not> links r z \<and> \<not> links z r" using assms Cons by simp
  ultimately have "z \<in> set (merge_run c (pre' @ z # post))" by (rule merge_run_keeps)
  with Cons show ?thesis by (simp add: squash_rows_def)
qed

lemma sort_values_split:
  assumes "z \<in> set df"
  shows "\<exists>pre post. sort_values df = pre @ z # post \<and> set (pre @ post) = set (remove1 z df)"
proof -
  from assms have "z \<in> set (sort_values df)" by (simp add: sort_values_def)
  then obtain pre post where e: "sort_values df = pre @ z # post" by (auto dest: split_list)
  have "mset (sort_values df) = mset df" by (simp add: sort_values_def)
  with e have "mset df = add_mset z (mset (pre @ post))" by simp
  then have "mset (remove1 z df) = mset (pre @ post)" by simp
  then have "set (remove1 z df) = set (pre @ post)" by (rule mset_eq_setD)
  with e show ?thesis by blast
qed

section \<open>The claims of the specification\<close>

text \<open>
  Claim C1 (maximal merge). In the output of the merger, no two consecutive segments of one
  child have \<open>right[i] = left[i+1]\<close> together with \<open>population[i] = population[i+1]\<close>:
  such a pair is always merged into one segment. The segments of a child \<open>c\<close> are the
  output filtered by \<open>child = c\<close>. This holds for every input, so in particular for every
  input that satisfies the input contract.
\<close>

theorem maximal_merge:
  "\<exists>out. merger df = Inr out \<and>
     (\<forall>c i. Suc i < length (filter (\<lambda>s. child s = c) out) \<longrightarrow>
        \<not> (right (filter (\<lambda>s. child s = c) out ! i) = left (filter (\<lambda>s. child s = c) out ! Suc i)
           \<and> population (filter (\<lambda>s. child s = c) out ! i)
               = population (filter (\<lambda>s. child s = c) out ! Suc i)))"
proof -
  let ?out = "squash_rows (sort_values df)"
  have s: "sorted (map child ?out)"
    using squash_rows_sorted [OF sort_values_sorted] by (rule sorted_child)
  have "\<not> (right (filter (\<lambda>s. child s = c) ?out ! i) = left (filter (\<lambda>s. child s = c) ?out ! Suc i)
           \<and> population (filter (\<lambda>s. child s = c) ?out ! i)
               = population (filter (\<lambda>s. child s = c) ?out ! Suc i))"
    if i: "Suc i < length (filter (\<lambda>s. child s = c) ?out)" for c i
  proof -
    let ?g = "filter (\<lambda>s. child s = c) ?out"
    have "successively (\<lambda>s t. \<not> links s t) ?g"
      by (rule filter_child_unlinked [OF s squash_rows_unlinked])
    then have n: "\<not> links (?g ! i) (?g ! Suc i)" using i by (rule successively_nth)
    have "?g ! i \<in> set ?g" "?g ! Suc i \<in> set ?g" using i by (simp_all del: set_filter)
    then have "child (?g ! i) = c" "child (?g ! Suc i) = c" by simp_all
    with n show ?thesis by (auto simp: links_def)
  qed
  then show ?thesis by (simp add: merger_eq)
qed

theorem maximal_merge_witness:
  "merger [\<lparr>left = 0, right = 5, population = 0, child = 0\<rparr>,
           \<lparr>left = 5, right = 10, population = 1, child = 0\<rparr>,
           \<lparr>left = 10, right = 12, population = 1, child = 0\<rparr>]
     = Inr [\<lparr>left = 0, right = 5, population = 0, child = 0\<rparr>,
            \<lparr>left = 5, right = 12, population = 1, child = 0\<rparr>]
   \<and> Suc 0 < length (filter (\<lambda>s. child s = 0)
         [\<lparr>left = 0, right = 5, population = 0, child = 0\<rparr>,
          \<lparr>left = 5, right = 12, population = 1, child = 0\<rparr>])
   \<and> \<not> (right \<lparr>left = 0, right = 5, population = 0, child = 0\<rparr>
           = left \<lparr>left = 5, right = 12, population = 1, child = 0\<rparr>
         \<and> population \<lparr>left = 0, right = 5, population = 0, child = 0\<rparr>
           = population \<lparr>left = 5, right = 12, population = 1, child = 0\<rparr>)"
proof -
  let ?df = "[\<lparr>left = 0, right = 5, population = 0, child = 0\<rparr>,
              \<lparr>left = 5, right = 10, population = 1, child = 0\<rparr>,
              \<lparr>left = 10, right = 12, population = 1, child = 0\<rparr>]"
  let ?res = "[\<lparr>left = 0, right = 5, population = 0, child = 0\<rparr>,
               \<lparr>left = 5, right = 12, population = 1, child = 0\<rparr>]"
  have m: "merger ?df = Inr ?res" by code_simp
  from maximal_merge [of ?df] obtain out where
    o: "merger ?df = Inr out" and
    p: "\<forall>c i. Suc i < length (filter (\<lambda>s. child s = c) out) \<longrightarrow>
        \<not> (right (filter (\<lambda>s. child s = c) out ! i) = left (filter (\<lambda>s. child s = c) out ! Suc i)
           \<and> population (filter (\<lambda>s. child s = c) out ! i)
               = population (filter (\<lambda>s. child s = c) out ! Suc i))" by blast
  from o m have e: "out = ?res" by simp
  from p [rule_format, of 0 0] show ?thesis unfolding e using m by simp
qed

text \<open>
  Claim C2 (overlapping records), as the cell behaves. The cell has no check of its input and
  raises no error. For every input whose records all have \<open>left < right\<close> and that holds
  two overlapping records of one child at different positions, the merger returns a table, and
  that table still holds two overlapping segments of one child at different positions: the
  overlap is neither rejected nor repaired.
\<close>

theorem overlap_passes_through:
  assumes "\<forall>r\<in>set df. left r < right r"
    and "i < length df" "j < length df" "i \<noteq> j"
    and "child (df ! i) = child (df ! j)" "overlap (df ! i) (df ! j)"
  shows "\<exists>out. merger df = Inr out \<and>
           (\<exists>i' j'. i' < length out \<and> j' < length out \<and> i' \<noteq> j'
              \<and> child (out ! i') = child (out ! j') \<and> overlap (out ! i') (out ! j'))"
proof -
  from overlap_kept [OF assms] obtain i' j' where
    "i' < j'" "j' < length (squash_rows (sort_values df))"
    "child (squash_rows (sort_values df) ! i') = child (squash_rows (sort_values df) ! j')"
    "overlap (squash_rows (sort_values df) ! i') (squash_rows (sort_values df) ! j')" by blast
  then have "i' < length (squash_rows (sort_values df)) \<and> j' < length (squash_rows (sort_values df))
      \<and> i' \<noteq> j'
      \<and> child (squash_rows (sort_values df) ! i') = child (squash_rows (sort_values df) ! j')
      \<and> overlap (squash_rows (sort_values df) ! i') (squash_rows (sort_values df) ! j')" by simp
  then show ?thesis unfolding merger_eq by blast
qed

theorem overlap_passes_through_witness:
  "left \<lparr>left = 0, right = 5, population = 0, child = 0\<rparr>
     < right \<lparr>left = 0, right = 5, population = 0, child = 0\<rparr>
   \<and> left \<lparr>left = 3, right = 8, population = 0, child = 0\<rparr>
     < right \<lparr>left = 3, right = 8, population = 0, child = 0\<rparr>
   \<and> overlap \<lparr>left = 0, right = 5, population = 0, child = 0\<rparr>
             \<lparr>left = 3, right = 8, population = 0, child = 0\<rparr>
   \<and> (\<exists>out. merger [\<lparr>left = 0, right = 5, population = 0, child = 0\<rparr>,
                     \<lparr>left = 3, right = 8, population = 0, child = 0\<rparr>] = Inr out
        \<and> (\<exists>i' j'. i' < length out \<and> j' < length out \<and> i' \<noteq> j'
              \<and> child (out ! i') = child (out ! j') \<and> overlap (out ! i') (out ! j')))"
proof -
  let ?df = "[\<lparr>left = 0, right = 5, population = 0, child = 0\<rparr>,
              \<lparr>left = 3, right = 8, population = 0, child = 0\<rparr>]"
  have v: "\<forall>r\<in>set ?df. left r < right r" by simp
  have o: "overlap (?df ! 0) (?df ! 1)" by (simp add: overlap_def)
  have "\<exists>out. merger ?df = Inr out
        \<and> (\<exists>i' j'. i' < length out \<and> j' < length out \<and> i' \<noteq> j'
              \<and> child (out ! i') = child (out ! j') \<and> overlap (out ! i') (out ! j'))"
    by (rule overlap_passes_through [OF v, of 0 1]) (simp_all add: overlap_def)
  with o show ?thesis by simp
qed

text \<open>
  The fourth example of the specification, two overlapping records of child 0: the merger
  returns both records as segments and no \<open>InputOrderingError\<close>.
\<close>

theorem overlap_counterexample:
  "overlap \<lparr>left = 0, right = 5, population = 0, child = 0\<rparr>
           \<lparr>left = 3, right = 8, population = 0, child = 0\<rparr>
   \<and> merger [\<lparr>left = 0, right = 5, population = 0, child = 0\<rparr>,
             \<lparr>left = 3, right = 8, population = 0, child = 0\<rparr>]
     = Inr [\<lparr>left = 0, right = 5, population = 0, child = 0\<rparr>,
            \<lparr>left = 3, right = 8, population = 0, child = 0\<rparr>]
   \<and> merger [\<lparr>left = 0, right = 5, population = 0, child = 0\<rparr>,
             \<lparr>left = 3, right = 8, population = 0, child = 0\<rparr>]
     \<noteq> Inl InputOrderingError"
  by (simp add: overlap_def merger_eq sort_values_def squash_rows_def links_def)

text \<open>
  Claim C3 (effects on the input), as the cell behaves. The cell always completes, and it sorts
  \<^verbatim>\<open>local_ancestry\<close> in place: afterwards the input table holds the stable sort of its rows
  by \<open>(child, left)\<close>, which has the same rows as a multiset, and it is the table it was
  exactly when that table was already sorted by \<open>(child, left)\<close>.
\<close>

theorem sorts_input_in_place:
  "\<exists>nb. squash_cell df = Inr nb
     \<and> local_ancestry nb = sort_key (\<lambda>r. (child r, left r)) df
     \<and> mset (local_ancestry nb) = mset df
     \<and> (local_ancestry nb = df) = sorted (map (\<lambda>r. (child r, left r)) df)"
proof -
  have "(sort_values df = df) = sorted (map sort_columns df)"
  proof
    assume "sort_values df = df"
    with sort_values_sorted [of df] show "sorted (map sort_columns df)" by simp
  next
    assume "sorted (map sort_columns df)"
    then show "sort_values df = df" by (simp add: sort_values_def sort_key_id_if_sorted)
  qed
  then show ?thesis by (simp add: squash_cell_eq sort_values_def)
qed

theorem sorts_input_in_place_witness:
  "sorted (map (\<lambda>r. (child r, left r))
      [\<lparr>left = 0, right = 2, population = 1, child = 0\<rparr>,
       \<lparr>left = 3, right = 4, population = 0, child = 1\<rparr>])
   \<and> squash_cell [\<lparr>left = 0, right = 2, population = 1, child = 0\<rparr>,
                  \<lparr>left = 3, right = 4, population = 0, child = 1\<rparr>]
     = Inr \<lparr>local_ancestry = [\<lparr>left = 0, right = 2, population = 1, child = 0\<rparr>,
                               \<lparr>left = 3, right = 4, population = 0, child = 1\<rparr>],
            squashed_ancestry_table = [\<lparr>left = 0, right = 2, population = 1, child = 0\<rparr>,
                                        \<lparr>left = 3, right = 4, population = 0, child = 1\<rparr>]\<rparr>"
proof -
  let ?df = "[\<lparr>left = 0, right = 2, population = 1, child = 0\<rparr>,
              \<lparr>left = 3, right = 4, population = 0, child = 1\<rparr>]"
  have s: "sorted (map (\<lambda>r. (child r, left r)) ?df)" by simp
  have t: "\<exists>t. squash_cell ?df = Inr \<lparr>local_ancestry = sort_values ?df, squashed_ancestry_table = t\<rparr>
                \<and> t = ?df"
    by (simp add: squash_cell_eq sort_values_def squash_rows_def links_def)
  from sorts_input_in_place [of ?df] obtain nb where
    n: "squash_cell ?df = Inr nb"
       "(local_ancestry nb = ?df) = sorted (map (\<lambda>r. (child r, left r)) ?df)" by blast
  from n(2) s have "local_ancestry nb = ?df" by blast
  with n(1) t s show ?thesis by auto
qed

text \<open>
  An input that is not sorted by child: after the cell has run, \<^verbatim>\<open>local_ancestry\<close> holds
  its two rows in the other order.
\<close>

theorem purity_counterexample:
  "squash_cell [\<lparr>left = 3, right = 4, population = 0, child = 1\<rparr>,
                \<lparr>left = 0, right = 2, population = 1, child = 0\<rparr>]
     = Inr \<lparr>local_ancestry = [\<lparr>left = 0, right = 2, population = 1, child = 0\<rparr>,
                               \<lparr>left = 3, right = 4, population = 0, child = 1\<rparr>],
            squashed_ancestry_table = [\<lparr>left = 0, right = 2, population = 1, child = 0\<rparr>,
                                        \<lparr>left = 3, right = 4, population = 0, child = 1\<rparr>]\<rparr>
   \<and> [\<lparr>left = 0, right = 2, population = 1, child = 0\<rparr>,
       \<lparr>left = 3, right = 4, population = 0, child = 1\<rparr>]
     \<noteq> [\<lparr>left = 3, right = 4, population = 0, child = 1\<rparr>,
         \<lparr>left = 0, right = 2, population = 1, child = 0\<rparr>]"
  by (simp add: squash_cell_eq sort_values_def squash_rows_def links_def)

text \<open>
  Claim C4 (zero-length records), as the cell behaves. A record \<open>z\<close> with \<open>left = right\<close>
  raises no error and is handled like every other row. Alone it is returned unchanged. It is
  passed through, as an output segment of its own, whenever no record at another position of
  the input with its child and population begins or ends at its position. In every case it either opens a segment or is
  merged into the open segment of its child and population: the output has a segment of its
  child and population that begins at or before its position and, when every record of the
  input has \<open>left \<le> right\<close>, ends at or after it, so that the segment contains the record.
\<close>

theorem zero_length_not_rejected:
  assumes "z \<in> set df" and "left z = right z"
  shows "merger [z] = Inr [z] \<and>
         (\<exists>out. merger df = Inr out \<and>
            ((\<forall>r\<in>set (remove1 z df). child r = child z \<and> population r = population z
                 \<longrightarrow> left r \<noteq> left z \<and> right r \<noteq> left z)
               \<longrightarrow> z \<in> set out) \<and>
            (\<exists>s\<in>set out. child s = child z \<and> population s = population z \<and> left s \<le> left z \<and>
               ((\<forall>r\<in>set df. left r \<le> right r) \<longrightarrow> right z \<le> right s)))"
proof -
  let ?out = "squash_rows (sort_values df)"
  have one: "merger [z] = Inr [z]"
    by (simp add: merger_eq sort_values_def squash_rows_def)
  from sort_values_split [OF assms(1)] obtain pre post where
    e: "sort_values df = pre @ z # post" and r: "set (pre @ post) = set (remove1 z df)" by blast
  have through: "z \<in> set ?out"
    if h: "\<forall>r\<in>set (remove1 z df). child r = child z \<and> population r = population z
             \<longrightarrow> left r \<noteq> left z \<and> right r \<noteq> left z"
  proof -
    have "\<forall>q\<in>set (pre @ post). \<not> links q z \<and> \<not> links z q"
      using h r assms(2) by (auto simp: links_def)
    from squash_rows_keeps [OF this] e show ?thesis by simp
  qed
  from assms(1) have zs: "z \<in> set (sort_values df)" by (simp add: sort_values_def)
  then obtain c rs where f: "sort_values df = c # rs" by (cases "sort_values df") auto
  from sort_values_sorted [of df] f have "sorted (map sort_columns (c # rs))" by simp
  from merge_run_contains [OF this] zs f obtain s where
    s: "s \<in> set (merge_run c rs)" "child s = child z" "population s = population z"
       "left s \<le> left z"
       "(\<forall>q\<in>set (c # rs). left q \<le> right q) \<longrightarrow> right z \<le> right s" by auto
  have "set (c # rs) = set df" using f [symmetric] by (simp add: sort_values_def)
  with s(5) have "(\<forall>q\<in>set df. left q \<le> right q) \<longrightarrow> right z \<le> right s" by blast
  moreover have "s \<in> set ?out" using s(1) f by (simp add: squash_rows_def)
  ultimately have "\<exists>s\<in>set ?out. child s = child z \<and> population s = population z
      \<and> left s \<le> left z \<and> ((\<forall>r\<in>set df. left r \<le> right r) \<longrightarrow> right z \<le> right s)"
    using s(2-4) by blast
  with one through show ?thesis unfolding merger_eq by blast
qed

theorem zero_length_not_rejected_witness:
  "left \<lparr>left = 5, right = 5, population = 0, child = 0\<rparr>
     = right \<lparr>left = 5, right = 5, population = 0, child = 0\<rparr>
   \<and> merger [\<lparr>left = 5, right = 5, population = 0, child = 0\<rparr>]
     = Inr [\<lparr>left = 5, right = 5, population = 0, child = 0\<rparr>]
   \<and> merger [\<lparr>left = 5, right = 5, population = 0, child = 0\<rparr>,
             \<lparr>left = 0, right = 3, population = 0, child = 0\<rparr>]
     = Inr [\<lparr>left = 0, right = 3, population = 0, child = 0\<rparr>,
            \<lparr>left = 5, right = 5, population = 0, child = 0\<rparr>]
   \<and> \<lparr>left = 5, right = 5, population = 0, child = 0\<rparr>
       \<in> set [\<lparr>left = 0, right = 3, population = 0, child = 0\<rparr>,
               \<lparr>left = 5, right = 5, population = 0, child = 0\<rparr>]
   \<and> merger [\<lparr>left = 5, right = 5, population = 0, child = 0\<rparr>,
             \<lparr>left = 0, right = 5, population = 0, child = 0\<rparr>]
     = Inr [\<lparr>left = 0, right = 5, population = 0, child = 0\<rparr>]
   \<and> left \<lparr>left = 0, right = 5, population = 0, child = 0\<rparr>
       \<le> left \<lparr>left = 5, right = 5, population = 0, child = 0\<rparr>
   \<and> right \<lparr>left = 5, right = 5, population = 0, child = 0\<rparr>
       \<le> right \<lparr>left = 0, right = 5, population = 0, child = 0\<rparr>"
proof -
  let ?z = "\<lparr>left = 5, right = 5, population = 0, child = 0\<rparr>"
  let ?A = "[?z, \<lparr>left = 0, right = 3, population = 0, child = 0\<rparr>]"
  let ?B = "[?z, \<lparr>left = 0, right = 5, population = 0, child = 0\<rparr>]"
  have z: "left ?z = right ?z" by simp
  have mA: "merger ?A = Inr [\<lparr>left = 0, right = 3, population = 0, child = 0\<rparr>, ?z]"
    by code_simp
  have mB: "merger ?B = Inr [\<lparr>left = 0, right = 5, population = 0, child = 0\<rparr>]" by code_simp
  have hA: "\<forall>r\<in>set (remove1 ?z ?A). child r = child ?z \<and> population r = population ?z
              \<longrightarrow> left r \<noteq> left ?z \<and> right r \<noteq> left ?z" by simp
  have vB: "\<forall>r\<in>set ?B. left r \<le> right r" by simp
  have "?z \<in> set ?A" by simp
  from zero_length_not_rejected [OF this z] hA obtain outA where
    one: "merger [?z] = Inr [?z]" and oA: "merger ?A = Inr outA" and tA: "?z \<in> set outA"
    by blast
  from oA mA have eA: "outA = [\<lparr>left = 0, right = 3, population = 0, child = 0\<rparr>, ?z]" by simp
  have "?z \<in> set ?B" by simp
  from zero_length_not_rejected [OF this z] vB obtain outB s where
    oB: "merger ?B = Inr outB" and sB: "s \<in> set outB" "left s \<le> left ?z" "right ?z \<le> right s"
    by blast
  from oB mB have "outB = [\<lparr>left = 0, right = 5, population = 0, child = 0\<rparr>]" by simp
  with sB have "left \<lparr>left = 0, right = 5, population = 0, child = 0\<rparr> \<le> left ?z"
    "right ?z \<le> right \<lparr>left = 0, right = 5, population = 0, child = 0\<rparr>" by simp_all
  with z one mA mB tA eA show ?thesis by simp
qed

text \<open>
  A single zero-length record: the merger returns it as a segment and no
  \<open>InputOrderingError\<close>.
\<close>

theorem zero_length_counterexample:
  "left \<lparr>left = 5, right = 5, population = 0, child = 0\<rparr>
     = right \<lparr>left = 5, right = 5, population = 0, child = 0\<rparr>
   \<and> merger [\<lparr>left = 5, right = 5, population = 0, child = 0\<rparr>]
     = Inr [\<lparr>left = 5, right = 5, population = 0, child = 0\<rparr>]
   \<and> merger [\<lparr>left = 5, right = 5, population = 0, child = 0\<rparr>] \<noteq> Inl InputOrderingError"
  by (simp add: merger_eq sort_values_def squash_rows_def)

text \<open>
  Claim C5 (coverage preservation). For an input that satisfies the input contract, and for
  every child, a point lies in the half-open interval of some output segment of that child
  exactly when it lies in the interval of some input record of that child; and the same with
  the population label attached: a point carries a label after squashing exactly when it
  carried that label before.
\<close>

theorem coverage_preserved:
  assumes "input_contract df"
  shows "\<exists>out. merger df = Inr out \<and>
     (\<forall>c x. (\<exists>s\<in>set out. child s = c \<and> left s \<le> x \<and> x < right s)
              = (\<exists>r\<in>set df. child r = c \<and> left r \<le> x \<and> x < right r)) \<and>
     (\<forall>c x p. (\<exists>s\<in>set out. child s = c \<and> left s \<le> x \<and> x < right s \<and> population s = p)
              = (\<exists>r\<in>set df. child r = c \<and> left r \<le> x \<and> x < right r \<and> population r = p))"
proof -
  let ?out = "squash_rows (sort_values df)"
  have v: "\<forall>r\<in>set df. left r \<le> right r"
    using assms by (auto simp: input_contract_def)
  have "(\<exists>s\<in>set ?out. covers c x s \<and> Q (population s))
          = (\<exists>r\<in>set df. covers c x r \<and> Q (population r))" for c x Q
    unfolding filter_nonempty by (simp only: cover_count [OF v])
  from this [of _ _ "\<lambda>_. True"] this [of _ _ "\<lambda>q. q = p" for p]
  show ?thesis by (simp add: merger_eq covers_def)
qed

theorem coverage_preserved_witness:
  "input_contract [\<lparr>left = 5, right = 10, population = 0, child = 0\<rparr>,
                   \<lparr>left = 0, right = 5, population = 0, child = 0\<rparr>]
   \<and> merger [\<lparr>left = 5, right = 10, population = 0, child = 0\<rparr>,
             \<lparr>left = 0, right = 5, population = 0, child = 0\<rparr>]
     = Inr [\<lparr>left = 0, right = 10, population = 0, child = 0\<rparr>]
   \<and> (\<exists>s\<in>set [\<lparr>left = 0, right = 10, population = 0, child = 0\<rparr>].
         child s = 0 \<and> left s \<le> 7 \<and> 7 < right s \<and> population s = 0)
   \<and> (\<exists>r\<in>set [\<lparr>left = 5, right = 10, population = 0, child = 0\<rparr>,
               \<lparr>left = 0, right = 5, population = 0, child = 0\<rparr>].
         child r = 0 \<and> left r \<le> 7 \<and> 7 < right r \<and> population r = 0)"
proof -
  let ?df = "[\<lparr>left = 5, right = 10, population = 0, child = 0\<rparr>,
              \<lparr>left = 0, right = 5, population = 0, child = 0\<rparr>]"
  let ?res = "[\<lparr>left = 0, right = 10, population = 0, child = 0\<rparr>]"
  have c: "input_contract ?df" by (simp add: input_contract_pairs overlap_def)
  have m: "merger ?df = Inr ?res" by code_simp
  from coverage_preserved [OF c] obtain out where
    o: "merger ?df = Inr out" and
    p: "\<forall>c x p. (\<exists>s\<in>set out. child s = c \<and> left s \<le> x \<and> x < right s \<and> population s = p)
              = (\<exists>r\<in>set ?df. child r = c \<and> left r \<le> x \<and> x < right r \<and> population r = p)"
    by blast
  from o m have e: "out = ?res" by simp
  have "\<exists>s\<in>set ?res. child s = 0 \<and> left s \<le> 7 \<and> 7 < right s \<and> population s = 0" by simp
  with p [rule_format, of 0 7 0] c m show ?thesis unfolding e by blast
qed

text \<open>
  Claim C6 (idempotence). For every input the merger returns a table, and running the merger
  on that table returns the same table.
\<close>

theorem idempotent: "\<exists>out. merger df = Inr out \<and> merger out = Inr out"
proof -
  let ?out = "squash_rows (sort_values df)"
  have "sorted (map sort_columns ?out)"
    by (rule squash_rows_sorted [OF sort_values_sorted])
  then have "sort_values ?out = ?out"
    by (simp add: sort_values_def sort_key_id_if_sorted)
  moreover have "squash_rows ?out = ?out"
    by (rule squash_rows_fixed [OF squash_rows_unlinked])
  ultimately show ?thesis by (simp add: merger_eq)
qed

theorem idempotent_witness:
  "merger [\<lparr>left = 5, right = 10, population = 0, child = 0\<rparr>,
           \<lparr>left = 0, right = 5, population = 0, child = 0\<rparr>]
     = Inr [\<lparr>left = 0, right = 10, population = 0, child = 0\<rparr>]
   \<and> merger [\<lparr>left = 0, right = 10, population = 0, child = 0\<rparr>]
     = Inr [\<lparr>left = 0, right = 10, population = 0, child = 0\<rparr>]"
proof -
  let ?df = "[\<lparr>left = 5, right = 10, population = 0, child = 0\<rparr>,
              \<lparr>left = 0, right = 5, population = 0, child = 0\<rparr>]"
  have m: "merger ?df = Inr [\<lparr>left = 0, right = 10, population = 0, child = 0\<rparr>]" by code_simp
  from idempotent [of ?df] obtain out where
    o: "merger ?df = Inr out" and p: "merger out = Inr out" by blast
  from o m p show ?thesis by simp
qed

text \<open>
  Claim C7 (order independence). For an input that satisfies the input contract, every
  permutation of it (a list with the same multiset of records) gives the same output: the same
  list of segments, so the same set of segments in the same group order.
\<close>

theorem order_independent:
  assumes "input_contract df" and "mset df' = mset df"
  shows "\<exists>out. merger df = Inr out \<and> merger df' = Inr out"
  using sort_values_permuted [OF contract_columns_distinct [OF assms(1)] assms(2)]
  by (simp add: merger_eq)

theorem order_independent_witness:
  "input_contract [\<lparr>left = 3, right = 4, population = 0, child = 1\<rparr>,
                   \<lparr>left = 5, right = 10, population = 1, child = 0\<rparr>,
                   \<lparr>left = 0, right = 5, population = 1, child = 0\<rparr>]
   \<and> mset [\<lparr>left = 0, right = 5, population = 1, child = 0\<rparr>,
            \<lparr>left = 3, right = 4, population = 0, child = 1\<rparr>,
            \<lparr>left = 5, right = 10, population = 1, child = 0\<rparr>]
     = mset [\<lparr>left = 3, right = 4, population = 0, child = 1\<rparr>,
             \<lparr>left = 5, right = 10, population = 1, child = 0\<rparr>,
             \<lparr>left = 0, right = 5, population = 1, child = 0\<rparr>]
   \<and> merger [\<lparr>left = 3, right = 4, population = 0, child = 1\<rparr>,
             \<lparr>left = 5, right = 10, population = 1, child = 0\<rparr>,
             \<lparr>left = 0, right = 5, population = 1, child = 0\<rparr>]
     = Inr [\<lparr>left = 0, right = 10, population = 1, child = 0\<rparr>,
            \<lparr>left = 3, right = 4, population = 0, child = 1\<rparr>]
   \<and> merger [\<lparr>left = 0, right = 5, population = 1, child = 0\<rparr>,
             \<lparr>left = 3, right = 4, population = 0, child = 1\<rparr>,
             \<lparr>left = 5, right = 10, population = 1, child = 0\<rparr>]
     = Inr [\<lparr>left = 0, right = 10, population = 1, child = 0\<rparr>,
            \<lparr>left = 3, right = 4, population = 0, child = 1\<rparr>]"
proof -
  let ?df = "[\<lparr>left = 3, right = 4, population = 0, child = 1\<rparr>,
              \<lparr>left = 5, right = 10, population = 1, child = 0\<rparr>,
              \<lparr>left = 0, right = 5, population = 1, child = 0\<rparr>]"
  let ?df' = "[\<lparr>left = 0, right = 5, population = 1, child = 0\<rparr>,
               \<lparr>left = 3, right = 4, population = 0, child = 1\<rparr>,
               \<lparr>left = 5, right = 10, population = 1, child = 0\<rparr>]"
  have c: "input_contract ?df" by (simp add: input_contract_pairs overlap_def)
  have p: "mset ?df' = mset ?df" by simp
  have m: "merger ?df = Inr [\<lparr>left = 0, right = 10, population = 1, child = 0\<rparr>,
                             \<lparr>left = 3, right = 4, population = 0, child = 1\<rparr>]" by code_simp
  from order_independent [OF c p] obtain out where
    "merger ?df = Inr out" "merger ?df' = Inr out" by blast
  with m c p show ?thesis by simp
qed

text \<open>
  Claim C8 (non-overlap). For an input that satisfies the input contract, output segments of
  one child at different positions never overlap, and of two segments of one child the earlier
  one has the strictly smaller \<open>left\<close> and ends no later than the other begins
  (\<open>right[i] \<le> left[j]\<close> for all \<open>i < j\<close>, so for consecutive ones).
\<close>

theorem output_non_overlapping:
  assumes "input_contract df"
  shows "\<exists>out. merger df = Inr out \<and>
     (\<forall>i j. i < length out \<and> j < length out \<and> i \<noteq> j \<and> child (out ! i) = child (out ! j)
        \<longrightarrow> \<not> overlap (out ! i) (out ! j)) \<and>
     (\<forall>i j. i < j \<and> j < length out \<and> child (out ! i) = child (out ! j)
        \<longrightarrow> left (out ! i) < left (out ! j) \<and> right (out ! i) \<le> left (out ! j))"
proof -
  let ?out = "squash_rows (sort_values df)"
  have v: "\<forall>r\<in>set (sort_values df). left r < right r"
    using assms by (simp add: input_contract_def sort_values_def)
  from squash_rows_apart [OF sort_values_apart [OF assms] v]
  have a: "sorted_wrt apart ?out" and w: "\<forall>s\<in>set ?out. left s < right s" by simp_all
  have fwd: "right (?out ! i) \<le> left (?out ! j) \<and> left (?out ! i) < left (?out ! j)"
    if "i < j" "j < length ?out" "child (?out ! i) = child (?out ! j)" for i j
  proof -
    have "apart (?out ! i) (?out ! j)" using a that(1,2) by (rule sorted_wrt_nth_less)
    moreover have "left (?out ! i) < right (?out ! i)" using w that(1,2) by simp
    ultimately show ?thesis using that(3) by (simp add: apart_def)
  qed
  have "\<not> overlap (?out ! i) (?out ! j)"
    if h: "i < length ?out" "j < length ?out" "i \<noteq> j" "child (?out ! i) = child (?out ! j)" for i j
  proof (cases "i < j")
    case True
    with fwd [of i j] h show ?thesis by (simp add: overlap_def)
  next
    case False
    with h have "j < i" by simp
    with fwd [of j i] h show ?thesis by (simp add: overlap_def)
  qed
  with fwd show ?thesis by (simp add: merger_eq)
qed

theorem output_non_overlapping_witness:
  "input_contract [\<lparr>left = 5, right = 10, population = 1, child = 0\<rparr>,
                   \<lparr>left = 0, right = 5, population = 0, child = 0\<rparr>]
   \<and> merger [\<lparr>left = 5, right = 10, population = 1, child = 0\<rparr>,
             \<lparr>left = 0, right = 5, population = 0, child = 0\<rparr>]
     = Inr [\<lparr>left = 0, right = 5, population = 0, child = 0\<rparr>,
            \<lparr>left = 5, right = 10, population = 1, child = 0\<rparr>]
   \<and> \<not> overlap \<lparr>left = 0, right = 5, population = 0, child = 0\<rparr>
                \<lparr>left = 5, right = 10, population = 1, child = 0\<rparr>
   \<and> left \<lparr>left = 0, right = 5, population = 0, child = 0\<rparr>
       < left \<lparr>left = 5, right = 10, population = 1, child = 0\<rparr>
   \<and> right \<lparr>left = 0, right = 5, population = 0, child = 0\<rparr>
       \<le> left \<lparr>left = 5, right = 10, population = 1, child = 0\<rparr>"
proof -
  let ?df = "[\<lparr>left = 5, right = 10, population = 1, child = 0\<rparr>,
              \<lparr>left = 0, right = 5, population = 0, child = 0\<rparr>]"
  let ?res = "[\<lparr>left = 0, right = 5, population = 0, child = 0\<rparr>,
               \<lparr>left = 5, right = 10, population = 1, child = 0\<rparr>]"
  have c: "input_contract ?df" by (simp add: input_contract_pairs overlap_def)
  have m: "merger ?df = Inr ?res" by code_simp
  from output_non_overlapping [OF c] obtain out where
    o: "merger ?df = Inr out" and
    p: "\<forall>i j. i < length out \<and> j < length out \<and> i \<noteq> j \<and> child (out ! i) = child (out ! j)
        \<longrightarrow> \<not> overlap (out ! i) (out ! j)" and
    q: "\<forall>i j. i < j \<and> j < length out \<and> child (out ! i) = child (out ! j)
        \<longrightarrow> left (out ! i) < left (out ! j) \<and> right (out ! i) \<le> left (out ! j)" by blast
  from o m have e: "out = ?res" by simp
  from p [rule_format, of 0 1] q [rule_format, of 0 1] c m show ?thesis unfolding e by simp
qed

text \<open>
  Claim C9 (touching records with different labels), for inputs within the input contract.
  When the input satisfies the input contract and holds two records \<open>a\<close> and \<open>b\<close> of one
  child with \<open>right a = left b\<close> and different population labels, the output holds two
  consecutive segments that meet at that position and are not merged: the first has the child
  and population of \<open>a\<close>, contains \<open>a\<close> and ends at \<open>right a\<close>; the second has the child and
  population of \<open>b\<close>, begins at \<open>left b\<close> and contains \<open>b\<close>.
\<close>

theorem touching_labels_kept_apart:
  assumes "input_contract df"
    and "a \<in> set df" "b \<in> set df"
    and "child a = child b" "right a = left b" "population a \<noteq> population b"
  shows "\<exists>out. merger df = Inr out \<and> kept_adjacent a b out"
proof -
  let ?L = "sort_values df"
  have v: "\<forall>r\<in>set ?L. left r < right r"
    using assms(1) by (simp add: input_contract_def sort_values_def)
  have m: "a \<in> set ?L" "b \<in> set ?L" using assms(2,3) by (simp_all add: sort_values_def)
  from touching_rows_consecutive [OF sort_values_apart [OF assms(1)]
      sorted_child [OF sort_values_sorted] v m assms(4,5)]
  obtain pre post where L: "?L = pre @ a # b # post" by blast
  from v have "\<forall>r\<in>set ?L. left r \<le> right r" by auto
  from squash_rows_boundary [OF L sort_values_sorted this assms(6)]
  show ?thesis by (simp add: merger_eq)
qed

theorem touching_labels_kept_apart_witness:
  "input_contract [\<lparr>left = 5, right = 10, population = 1, child = 0\<rparr>,
                   \<lparr>left = 0, right = 5, population = 0, child = 0\<rparr>]
   \<and> merger [\<lparr>left = 5, right = 10, population = 1, child = 0\<rparr>,
             \<lparr>left = 0, right = 5, population = 0, child = 0\<rparr>]
     = Inr [\<lparr>left = 0, right = 5, population = 0, child = 0\<rparr>,
            \<lparr>left = 5, right = 10, population = 1, child = 0\<rparr>]
   \<and> kept_adjacent \<lparr>left = 0, right = 5, population = 0, child = 0\<rparr>
                    \<lparr>left = 5, right = 10, population = 1, child = 0\<rparr>
       [\<lparr>left = 0, right = 5, population = 0, child = 0\<rparr>,
        \<lparr>left = 5, right = 10, population = 1, child = 0\<rparr>]"
proof -
  let ?a = "\<lparr>left = 0, right = 5, population = 0, child = 0\<rparr>"
  let ?b = "\<lparr>left = 5, right = 10, population = 1, child = 0\<rparr>"
  have c: "input_contract [?b, ?a]" by (simp add: input_contract_pairs overlap_def)
  have m: "merger [?b, ?a] = Inr [?a, ?b]" by code_simp
  have "\<exists>out. merger [?b, ?a] = Inr out \<and> kept_adjacent ?a ?b out"
    by (rule touching_labels_kept_apart [OF c]) simp_all
  with m c show ?thesis by auto
qed

text \<open>
  Outside the input contract the two records need not stay adjacent. Here \<open>a = (0, 5)\<close> with
  population 0 and \<open>b = (5, 10)\<close> with population 1 touch, and two further records of the
  child begin at 5: \<open>a\<close> is merged with \<open>(5, 7)\<close> into \<open>(0, 7)\<close>, and \<open>(5, 6)\<close> with
  population 2 comes between that segment and the one of \<open>b\<close>. No two consecutive output
  segments carry the populations of \<open>a\<close> and \<open>b\<close>.
\<close>

theorem touching_counterexample:
  "child \<lparr>left = 0, right = 5, population = 0, child = 0\<rparr>
     = child \<lparr>left = 5, right = 10, population = 1, child = 0\<rparr>
   \<and> right \<lparr>left = 0, right = 5, population = 0, child = 0\<rparr>
     = left \<lparr>left = 5, right = 10, population = 1, child = 0\<rparr>
   \<and> population \<lparr>left = 0, right = 5, population = 0, child = 0\<rparr>
     \<noteq> population \<lparr>left = 5, right = 10, population = 1, child = 0\<rparr>
   \<and> merger [\<lparr>left = 0, right = 5, population = 0, child = 0\<rparr>,
             \<lparr>left = 5, right = 7, population = 0, child = 0\<rparr>,
             \<lparr>left = 5, right = 6, population = 2, child = 0\<rparr>,
             \<lparr>left = 5, right = 10, population = 1, child = 0\<rparr>]
     = Inr [\<lparr>left = 0, right = 7, population = 0, child = 0\<rparr>,
            \<lparr>left = 5, right = 6, population = 2, child = 0\<rparr>,
            \<lparr>left = 5, right = 10, population = 1, child = 0\<rparr>]
   \<and> \<not> kept_adjacent \<lparr>left = 0, right = 5, population = 0, child = 0\<rparr>
                      \<lparr>left = 5, right = 10, population = 1, child = 0\<rparr>
         [\<lparr>left = 0, right = 7, population = 0, child = 0\<rparr>,
          \<lparr>left = 5, right = 6, population = 2, child = 0\<rparr>,
          \<lparr>left = 5, right = 10, population = 1, child = 0\<rparr>]"
  by (simp add: merger_eq sort_values_def squash_rows_def links_def kept_adjacent_def)

text \<open>
  Claim C10 (group order). For every input the output lists the children in ascending order
  of the child identifier, and the whole output is sorted lexicographically by
  \<open>(child, left)\<close>.
\<close>

theorem output_sorted:
  "\<exists>out. merger df = Inr out \<and> sorted (map child out) \<and> sorted (map (\<lambda>s. (child s, left s)) out)"
proof -
  have "sorted (map sort_columns (squash_rows (sort_values df)))"
    by (rule squash_rows_sorted [OF sort_values_sorted])
  then show ?thesis using sorted_child by (simp add: merger_eq)
qed

theorem output_sorted_witness:
  "merger [\<lparr>left = 3, right = 4, population = 0, child = 1\<rparr>,
           \<lparr>left = 0, right = 2, population = 1, child = 0\<rparr>]
     = Inr [\<lparr>left = 0, right = 2, population = 1, child = 0\<rparr>,
            \<lparr>left = 3, right = 4, population = 0, child = 1\<rparr>]
   \<and> sorted (map child [\<lparr>left = 0, right = 2, population = 1, child = 0\<rparr>,
                         \<lparr>left = 3, right = 4, population = 0, child = 1\<rparr>])"
proof -
  let ?df = "[\<lparr>left = 3, right = 4, population = 0, child = 1\<rparr>,
              \<lparr>left = 0, right = 2, population = 1, child = 0\<rparr>]"
  have m: "merger ?df = Inr [\<lparr>left = 0, right = 2, population = 1, child = 0\<rparr>,
                             \<lparr>left = 3, right = 4, population = 0, child = 1\<rparr>]" by code_simp
  from output_sorted [of ?df] obtain out where
    o: "merger ?df = Inr out" and p: "sorted (map child out)" by blast
  from o m p show ?thesis by simp
qed

end
